theory Spec2Isabelle
  imports Main
begin

section \<open>The broadcast registry of main.go\<close>

text \<open>
  The program keeps one \<^verbatim>\<open>*Event\<close> for the whole process. Its only field is the slice
  \<^verbatim>\<open>Subscribers\<close>; every subscriber holds a Go channel, which is a reference. The model
  therefore has two parts: the \<^verbatim>\<open>Event\<close> value as the source declares it, and a store of
  channels, addressed by natural numbers, in which \<^verbatim>\<open>make\<close>, send and \<^verbatim>\<open>close\<close> act.

  A payload (\<^verbatim>\<open>[]byte\<close>) is a list of 8-bit characters.
\<close>

type_synonym bytes = string

subsection \<open>Channels\<close>

text \<open>
  The channels of the program are unbuffered (\<^verbatim>\<open>make(chan []byte)\<close>): a send completes
  when a goroutine receives the value, and it waits until then. The only goroutine that
  ever receives from a channel is the stream session that made it, in its loop. A channel
  of the store therefore records, besides whether it has been closed and the values that
  have been handed over through it (oldest first), whether its session has left its loop:
  from then on nobody receives, and a send on it waits for ever. While the session is in
  its loop a send is taken; how long that takes is not modelled.
\<close>

record chan =
  closed :: bool
  sent :: "bytes list"
  abandoned :: bool

type_synonym chan_ref = nat

text \<open>How a call ends: it returns, it panics, or it blocks for ever.\<close>

datatype panic = SendOnClosedChannel | CloseOfClosedChannel | CloseOfNilChannel

datatype outcome = Returned | Panicked panic | Blocked

text \<open>\<^verbatim>\<open>make(chan []byte)\<close>: a new open channel at an address that was not in use.\<close>

definition make_chan :: "chan list \<Rightarrow> chan_ref \<times> chan list" where
  "make_chan h = (length h, h @ [\<lparr>closed = False, sent = [], abandoned = False\<rparr>])"

text \<open>
  \<^verbatim>\<open>c <- data\<close>. A send on a closed channel panics. A send on an open channel that no
  goroutine receives from any more blocks for ever, and hands nothing over. Otherwise the
  session takes the value. An address outside the store stands for the nil channel, the
  only channel value that \<^verbatim>\<open>make\<close> did not return: a send on it blocks for ever.
\<close>

definition chan_send :: "chan list \<Rightarrow> chan_ref \<Rightarrow> bytes \<Rightarrow> outcome \<times> chan list" where
  "chan_send h c data =
     (if c < length h then
        (if closed (h ! c) then (Panicked SendOnClosedChannel, h)
         else if abandoned (h ! c) then (Blocked, h)
         else (Returned, h[c := (h ! c)\<lparr>sent := sent (h ! c) @ [data]\<rparr>]))
      else (Blocked, h))"

text \<open>\<^verbatim>\<open>close(c)\<close>. Closing a closed channel or the nil channel panics.\<close>

definition chan_close :: "chan list \<Rightarrow> chan_ref \<Rightarrow> outcome \<times> chan list" where
  "chan_close h c =
     (if c < length h then
        (if closed (h ! c) then (Panicked CloseOfClosedChannel, h)
         else (Returned, h[c := (h ! c)\<lparr>closed := True\<rparr>]))
      else (Panicked CloseOfNilChannel, h))"

subsection \<open>Subscriber, Event and the program state\<close>

record Subscriber =
  ID :: string
  Closed :: bool
  Channel :: chan_ref

record Event =
  Subscribers :: "Subscriber list"

text \<open>The state of the program: the shared \<^verbatim>\<open>*Event\<close> and the channel store.\<close>

record state =
  event :: Event
  chans :: "chan list"

text \<open>\<^verbatim>\<open>chatEvent := &Event{}\<close> in \<^verbatim>\<open>main\<close>: no subscriber, no channel.\<close>

definition init :: state where
  "init = \<lparr>event = \<lparr>Subscribers = []\<rparr>, chans = []\<rparr>"

abbreviation subs :: "state \<Rightarrow> Subscriber list" where
  "subs st \<equiv> Subscribers (event st)"

text \<open>The values handed over so far through the channel at an address.\<close>

definition outbox :: "state \<Rightarrow> chan_ref \<Rightarrow> bytes list" where
  "outbox st c = (if c < length (chans st) then sent (chans st ! c) else [])"

definition is_closed :: "state \<Rightarrow> chan_ref \<Rightarrow> bool" where
  "is_closed st c = (c < length (chans st) \<and> closed (chans st ! c))"

definition is_abandoned :: "state \<Rightarrow> chan_ref \<Rightarrow> bool" where
  "is_abandoned st c = (c < length (chans st) \<and> abandoned (chans st ! c))"

text \<open>
  A stream session leaves its loop: from now on nobody receives from its channel.
\<close>

definition leave_loop :: "state \<Rightarrow> chan_ref \<Rightarrow> state" where
  "leave_loop st c =
     (if c < length (chans st) then st\<lparr>chans := (chans st)[c := (chans st ! c)\<lparr>abandoned := True\<rparr>]\<rparr>
      else st)"

subsection \<open>Sprintf("%d", n)\<close>

text \<open>
  \<^verbatim>\<open>fmt.Sprintf("%d", time.Now().Unix())\<close> prints an \<^verbatim>\<open>int64\<close> in decimal, with a minus
  sign when it is negative. No arithmetic is done on the number, so it is an \<open>int\<close> here.
\<close>

text \<open>The decimal digit \<open>d\<close>, for \<open>d < 10\<close>; \<open>digits\<close> asks for no other.\<close>

definition digit_char :: "nat \<Rightarrow> char" where
  "digit_char d = ''0123456789'' ! d"

function digits :: "nat \<Rightarrow> string" where
  "digits n = (if n < 10 then [digit_char n] else digits (n div 10) @ [digit_char (n mod 10)])"
  by pat_completeness auto
termination
  by (relation "measure (\<lambda>n. n)") auto

declare digits.simps [simp del]

definition Sprintf_d :: "int \<Rightarrow> string" where
  "Sprintf_d n = (if n < 0 then CHR ''-'' # digits (nat (- n)) else digits (nat n))"

subsection \<open>Subscribe, Unsubscribe, Publish\<close>

text \<open>
  \<^verbatim>\<open>Subscribe\<close> reads the clock. The reading, \<^verbatim>\<open>time.Now().Unix()\<close> in whole seconds, is the
  argument \<open>now\<close>. The new subscriber has \<^verbatim>\<open>Closed\<close> at its zero value.
\<close>

definition Subscribe :: "state \<Rightarrow> int \<Rightarrow> Subscriber \<times> state" where
  "Subscribe st now =
     (let (c, h) = make_chan (chans st);
          subscriber = \<lparr>ID = Sprintf_d now, Closed = False, Channel = c\<rparr>
      in (subscriber,
          st\<lparr>event := (event st)\<lparr>Subscribers := subs st @ [subscriber]\<rparr>, chans := h\<rparr>))"

text \<open>
  The loop of \<^verbatim>\<open>Unsubscribe\<close>: \<open>rest\<close> is what \<^verbatim>\<open>range\<close> has still to visit, \<open>i\<close> the index
  of its head. At the first subscriber with the given id the slice loses the element at
  \<open>i\<close>, then the channel of that subscriber is closed, and the loop is left. The slice is
  assigned before \<^verbatim>\<open>close\<close> runs, so a panic of \<^verbatim>\<open>close\<close> leaves the shortened slice.
\<close>

fun Unsubscribe_range :: "Subscriber list \<Rightarrow> nat \<Rightarrow> string \<Rightarrow> state \<Rightarrow> outcome \<times> state" where
  "Unsubscribe_range [] i id' st = (Returned, st)"
| "Unsubscribe_range (s # rest) i id' st =
     (if ID s \<noteq> id' then Unsubscribe_range rest (Suc i) id' st
      else
        (let st1 = st\<lparr>event := (event st)\<lparr>Subscribers := take i (subs st) @ drop (Suc i) (subs st)\<rparr>\<rparr>;
             (out, h) = chan_close (chans st1) (Channel s)
         in (out, st1\<lparr>chans := h\<rparr>)))"

definition Unsubscribe :: "state \<Rightarrow> string \<Rightarrow> outcome \<times> state" where
  "Unsubscribe st id' = Unsubscribe_range (subs st) 0 id' st"

text \<open>
  The loop of \<^verbatim>\<open>Publish\<close>: one send per subscriber, in slice order. A send that panics or
  blocks for ever ends the call there: the sends made before it stay made, the subscribers
  after it get nothing.
\<close>

fun Publish_range :: "Subscriber list \<Rightarrow> bytes \<Rightarrow> chan list \<Rightarrow> outcome \<times> chan list" where
  "Publish_range [] data h = (Returned, h)"
| "Publish_range (subscriber # rest) data h =
     (case chan_send h (Channel subscriber) data of
        (Returned, h') \<Rightarrow> Publish_range rest data h'
      | (out, h') \<Rightarrow> (out, h'))"

definition Publish :: "state \<Rightarrow> bytes \<Rightarrow> outcome \<times> state" where
  "Publish st data =
     (let (out, h) = Publish_range (subs st) data (chans st) in (out, st\<lparr>chans := h\<rparr>))"

subsection \<open>Executions of the registry\<close>

text \<open>
  The registry has three callers. A stream session calls \<^verbatim>\<open>Subscribe\<close> when it starts
  (\<open>OpSubscribe\<close>, with the clock reading) and then receives from the channel it got. When
  it sees \<^verbatim>\<open>Done\<close> it leaves its loop and its deferred call runs: \<^verbatim>\<open>Unsubscribe\<close> of the id
  in the subscriber value it holds (\<open>OpDisconnect\<close>, with that value). The send handler
  calls \<^verbatim>\<open>Publish\<close> (\<open>OpPublish\<close>). The states the program can be in are the ones that some
  sequence of these produces from the initial state. A panic inside a handler ends that
  request only (net/http recovers it) and a blocked call stays blocked, so the state such a
  call leaves is a state of the program too. Nothing here checks that the value given to
  \<open>OpDisconnect\<close> is one that \<^verbatim>\<open>Subscribe\<close> returned to a session still in its loop: the
  states of the program are among the states reached, and what holds of all of these holds
  of the program's.
\<close>

datatype op = OpSubscribe int | OpDisconnect Subscriber | OpPublish bytes

fun apply_op :: "state \<Rightarrow> op \<Rightarrow> outcome \<times> state" where
  "apply_op st (OpSubscribe now) = (Returned, snd (Subscribe st now))"
| "apply_op st (OpDisconnect s) = Unsubscribe (leave_loop st (Channel s)) (ID s)"
| "apply_op st (OpPublish data) = Publish st data"

fun run :: "state \<Rightarrow> op list \<Rightarrow> state" where
  "run st [] = st"
| "run st (x # xs) = run (snd (apply_op st x)) xs"

inductive reachable :: "state \<Rightarrow> bool" where
  reachable_init: "reachable init"
| reachable_step: "reachable st \<Longrightarrow> reachable (snd (apply_op st x))"

section \<open>The stream session of receiveChatHandler\<close>

text \<open>
  What the handler leaves on the \<^verbatim>\<open>http.ResponseWriter\<close>: the headers it set, the status
  when one was written, the bytes written to the body, and how many of them a
  \<^verbatim>\<open>Flush\<close> has pushed to the peer.
\<close>

record ResponseWriter =
  header :: "string \<rightharpoonup> string"
  status :: "nat option"
  body :: string
  flushed :: nat

definition new_writer :: ResponseWriter where
  "new_writer = \<lparr>header = Map.empty, status = None, body = [], flushed = 0\<rparr>"

definition Header_Set :: "ResponseWriter \<Rightarrow> string \<Rightarrow> string \<Rightarrow> ResponseWriter" where
  "Header_Set w k v = w\<lparr>header := (header w)(k \<mapsto> v)\<rparr>"

text \<open>
  \<^verbatim>\<open>http.Error(w, msg, code)\<close> of net/http: a plain-text reply with the given status and
  the message on one line.
\<close>

definition http_Error :: "ResponseWriter \<Rightarrow> string \<Rightarrow> nat \<Rightarrow> ResponseWriter" where
  "http_Error w msg code =
     (Header_Set (Header_Set w ''Content-Type'' ''text/plain; charset=utf-8'')
        ''X-Content-Type-Options'' ''nosniff'')
     \<lparr>status := Some code, body := body w @ msg @ [CHR 0x0A]\<rparr>"

text \<open>
  \<^verbatim>\<open>fmt.Fprintf(w, "data: %s\n\n", string(data))\<close>. The handler drops the error that
  \<^verbatim>\<open>Fprintf\<close> returns, so a failed write (\<open>ok\<close> false) changes nothing and the loop goes
  on. The first successful write fixes the status at 200.
\<close>

definition Fprintf_data :: "ResponseWriter \<Rightarrow> bytes \<Rightarrow> bool \<Rightarrow> ResponseWriter" where
  "Fprintf_data w data ok =
     (if ok then
        w\<lparr>status := (case status w of None \<Rightarrow> Some 200 | Some c \<Rightarrow> Some c),
          body := body w @ ''data: '' @ data @ [CHR 0x0A, CHR 0x0A]\<rparr>
      else w)"

definition Flush :: "ResponseWriter \<Rightarrow> ResponseWriter" where
  "Flush w = w\<lparr>flushed := length (body w)\<rparr>"

text \<open>
  One turn of the \<^verbatim>\<open>select\<close>: a value arrives on \<^verbatim>\<open>subscriber.Channel\<close> (with whether the
  write to the peer then succeeds), or the request's context is done. While the handler
  waits, the other goroutines start and end sessions and publish; a \<open>tick\<close> is one of the
  two.
\<close>

datatype select_case = RecvData bytes bool | CtxDone

datatype tick = Own select_case | Other op

text \<open>
  The \<^verbatim>\<open>for { select { ... } }\<close> loop. The first component of the result tells whether the
  loop was left (by the \<^verbatim>\<open>return\<close> of the \<^verbatim>\<open>Done\<close> case); with no tick left the handler is
  still waiting in \<^verbatim>\<open>select\<close>.
\<close>

fun stream_loop :: "tick list \<Rightarrow> state \<Rightarrow> ResponseWriter \<Rightarrow> bool \<times> state \<times> ResponseWriter" where
  "stream_loop [] st w = (False, st, w)"
| "stream_loop (Own (RecvData data ok) # ts) st w = stream_loop ts st (Flush (Fprintf_data w data ok))"
| "stream_loop (Own CtxDone # ts) st w = (True, st, w)"
| "stream_loop (Other x # ts) st w = stream_loop ts (snd (apply_op st x)) w"

text \<open>
  The handler. \<open>flusher_ok\<close> is the result of the type assertion \<^verbatim>\<open>w.(http.Flusher)\<close>,
  \<open>now\<close> the clock reading of its \<^verbatim>\<open>Subscribe\<close>. \<open>ending\<close> is \<open>None\<close> while the handler is
  still in its loop, and otherwise how it ended. \<open>calls\<close> lists the calls the handler
  itself made into the registry, in order. The \<^verbatim>\<open>return\<close> of the \<^verbatim>\<open>Done\<close> case leaves the
  loop, so that nobody receives from \<^verbatim>\<open>subscriber.Channel\<close> any more, and then the deferred
  \<^verbatim>\<open>Unsubscribe(subscriber.ID)\<close> runs.
\<close>

datatype call = CallSubscribe | CallUnsubscribe string

record handler_result =
  ending :: "outcome option"
  final :: state
  resp :: ResponseWriter
  calls :: "call list"

definition receiveChatHandler :: "state \<Rightarrow> bool \<Rightarrow> int \<Rightarrow> tick list \<Rightarrow> handler_result" where
  "receiveChatHandler st flusher_ok now ticks =
     (let w = Header_Set (Header_Set (Header_Set new_writer
                ''Content-Type'' ''text/event-stream'')
                ''Cache-Control'' ''no-cache'')
                ''Connection'' ''keep-alive''
      in if \<not> flusher_ok then
           \<lparr>ending = Some Returned, final = st,
            resp = http_Error w ''Streaming unsupported'' 500, calls = []\<rparr>
         else
           (let (subscriber, st1) = Subscribe st now;
                (left, st2, w2) = stream_loop ticks st1 w
            in if left then
                 (let (out, st3) = Unsubscribe (leave_loop st2 (Channel subscriber)) (ID subscriber)
                  in \<lparr>ending = Some out, final = st3, resp = w2,
                      calls = [CallSubscribe, CallUnsubscribe (ID subscriber)]\<rparr>)
               else \<lparr>ending = None, final = st2, resp = w2, calls = [CallSubscribe]\<rparr>))"

text \<open>
  What the other goroutines do while a session is in its loop: their steps before its
  first \<^verbatim>\<open>Done\<close>.
\<close>

fun others_before_done :: "tick list \<Rightarrow> op list" where
  "others_before_done [] = []"
| "others_before_done (Own (RecvData data ok) # ts) = others_before_done ts"
| "others_before_done (Own CtxDone # ts) = []"
| "others_before_done (Other x # ts) = x # others_before_done ts"

section \<open>The invariant of the registry\<close>

text \<open>
  What every state of the program satisfies: the subscribers of the slice hold pairwise
  different channels, each of them made and still open, and no \<^verbatim>\<open>Closed\<close> field is set.
\<close>

definition wellformed :: "state \<Rightarrow> bool" where
  "wellformed st = (distinct (map Channel (subs st)) \<and>
            (\<forall>x\<in>set (subs st). Channel x < length (chans st) \<and> \<not> closed (chans st ! Channel x) \<and> \<not> Closed x))"

section \<open>Properties\<close>

subsection \<open>The loops of Publish and Unsubscribe\<close>

lemma Publish_range_length: "length (snd (Publish_range xs data h)) = length h"
  by (induction xs arbitrary: h) (auto simp: chan_send_def split: prod.splits outcome.splits)

lemma Publish_range_closed:
  "c < length h \<Longrightarrow> closed (snd (Publish_range xs data h) ! c) = closed (h ! c)"
  by (induction xs arbitrary: h) (auto simp: chan_send_def nth_list_update split: prod.splits outcome.splits)

lemma Publish_range_abandoned:
  "c < length h \<Longrightarrow> abandoned (snd (Publish_range xs data h) ! c) = abandoned (h ! c)"
  by (induction xs arbitrary: h) (auto simp: chan_send_def nth_list_update split: prod.splits outcome.splits)

lemma Publish_range_other:
  "c \<notin> Channel ` set xs \<Longrightarrow> snd (Publish_range xs data h) ! c = h ! c"
  by (induction xs arbitrary: h) (auto simp: chan_send_def nth_list_update split: prod.splits outcome.splits)

lemma chan_send_Returned:
  "fst (chan_send h c data) = Returned \<Longrightarrow>
     c < length h \<and> \<not> closed (h ! c) \<and> \<not> abandoned (h ! c) \<and>
     snd (chan_send h c data) = h[c := (h ! c)\<lparr>sent := sent (h ! c) @ [data]\<rparr>]"
  by (auto simp: chan_send_def split: if_splits)


lemma Publish_range_Cons:
  "Publish_range (x # xs) data h =
     (if fst (chan_send h (Channel x) data) = Returned
      then Publish_range xs data (snd (chan_send h (Channel x) data))
      else chan_send h (Channel x) data)"
  by (cases "chan_send h (Channel x) data"; cases "fst (chan_send h (Channel x) data)") auto

text \<open>\<^verbatim>\<open>Publish\<close> returns exactly when every subscriber's channel is open and is received from.\<close>

lemma Publish_range_ok:
  "\<forall>x\<in>set xs. Channel x < length h \<and> \<not> closed (h ! Channel x) \<and> \<not> abandoned (h ! Channel x) \<Longrightarrow>
   fst (Publish_range xs data h) = Returned"
proof (induction xs arbitrary: h)
  case Nil
  then show ?case by simp
next
  case (Cons x xs)
  let ?h = "h[Channel x := (h ! Channel x)\<lparr>sent := sent (h ! Channel x) @ [data]\<rparr>]"
  have "\<forall>y\<in>set xs. Channel y < length ?h \<and> \<not> closed (?h ! Channel y) \<and> \<not> abandoned (?h ! Channel y)"
    using Cons.prems by (auto simp: nth_list_update)
  from Cons.IH[OF this] show ?case
    using Cons.prems by (simp add: chan_send_def)
qed

lemma Publish_range_Returned_live:
  "fst (Publish_range xs data h) = Returned \<Longrightarrow>
   \<forall>x\<in>set xs. Channel x < length h \<and> \<not> closed (h ! Channel x) \<and> \<not> abandoned (h ! Channel x)"
proof (induction xs arbitrary: h)
  case Nil
  then show ?case by simp
next
  case (Cons x xs)
  let ?h = "h[Channel x := (h ! Channel x)\<lparr>sent := sent (h ! Channel x) @ [data]\<rparr>]"
  have r: "fst (chan_send h (Channel x) data) = Returned"
    using Cons.prems by (auto simp: Publish_range_Cons simp del: Publish_range.simps split: if_splits)
  note s = chan_send_Returned[OF r]
  have "fst (Publish_range xs data ?h) = Returned"
    using Cons.prems r s by (simp add: Publish_range_Cons del: Publish_range.simps)
  from Cons.IH[OF this] s show ?case by (auto simp: nth_list_update split: if_splits)
qed

lemma Publish_range_sent:
  "fst (Publish_range xs data h) = Returned \<Longrightarrow> c < length h \<Longrightarrow>
   sent (snd (Publish_range xs data h) ! c) = sent (h ! c) @ replicate (count_list (map Channel xs) c) data"
proof (induction xs arbitrary: h)
  case Nil
  then show ?case by simp
next
  case (Cons x xs)
  let ?h = "h[Channel x := (h ! Channel x)\<lparr>sent := sent (h ! Channel x) @ [data]\<rparr>]"
  have r: "fst (chan_send h (Channel x) data) = Returned"
    using Cons.prems by (auto simp: Publish_range_Cons simp del: Publish_range.simps split: if_splits)
  note s = chan_send_Returned[OF r]
  have e: "Publish_range (x # xs) data h = Publish_range xs data ?h"
    using r s by (simp add: Publish_range_Cons del: Publish_range.simps)
  have "fst (Publish_range xs data ?h) = Returned" using Cons.prems e by simp
  moreover have "c < length ?h" using Cons.prems by simp
  ultimately have "sent (snd (Publish_range xs data ?h) ! c)
      = sent (?h ! c) @ replicate (count_list (map Channel xs) c) data"
    by (rule Cons.IH)
  then show ?case using e Cons.prems s
    by (auto simp: nth_list_update replicate_append_same)
qed


lemma find_Some_holds: "find P xs = Some x \<Longrightarrow> P x \<and> x \<in> set xs"
  by (induction xs) (auto split: if_splits)

lemma Unsubscribe_range_char:
  "subs st = pre @ rest \<Longrightarrow> \<forall>x\<in>set pre. ID x \<noteq> i \<Longrightarrow>
   Unsubscribe_range rest (length pre) i st =
     (case find (\<lambda>s. ID s = i) rest of
        None \<Rightarrow> (Returned, st)
      | Some x \<Rightarrow> (fst (chan_close (chans st) (Channel x)),
                   st\<lparr>event := (event st)\<lparr>Subscribers := pre @ remove1 x rest\<rparr>,
                      chans := snd (chan_close (chans st) (Channel x))\<rparr>))"
proof (induction rest arbitrary: pre)
  case Nil
  then show ?case by simp
next
  case (Cons s rest)
  show ?case
  proof (cases "ID s = i")
    case True
    then show ?thesis using Cons.prems by (simp add: split_beta Let_def)
  next
    case False
    have "subs st = (pre @ [s]) @ rest" using Cons.prems by simp
    moreover have "\<forall>x\<in>set (pre @ [s]). ID x \<noteq> i" using Cons.prems False by simp
    ultimately have step: "Unsubscribe_range rest (length (pre @ [s])) i st =
     (case find (\<lambda>s. ID s = i) rest of
        None \<Rightarrow> (Returned, st)
      | Some x \<Rightarrow> (fst (chan_close (chans st) (Channel x)),
                   st\<lparr>event := (event st)\<lparr>Subscribers := (pre @ [s]) @ remove1 x rest\<rparr>,
                      chans := snd (chan_close (chans st) (Channel x))\<rparr>))"
      by (rule Cons.IH)
    show ?thesis
    proof (cases "find (\<lambda>s. ID s = i) rest")
      case None
      with step False show ?thesis by simp
    next
      case (Some x)
      then have "ID x = i" using find_Some_holds[of "\<lambda>s. ID s = i" rest x] by simp
      then have "x \<noteq> s" using False by auto
      with step False Some show ?thesis by simp
    qed
  qed
qed

lemma Unsubscribe_char:
  "Unsubscribe st i =
     (case find (\<lambda>s. ID s = i) (subs st) of
        None \<Rightarrow> (Returned, st)
      | Some x \<Rightarrow> (fst (chan_close (chans st) (Channel x)),
                   st\<lparr>event := (event st)\<lparr>Subscribers := remove1 x (subs st)\<rparr>,
                      chans := snd (chan_close (chans st) (Channel x))\<rparr>))"
  using Unsubscribe_range_char[of st "[]" "subs st" i] by (simp add: Unsubscribe_def split: option.splits)

subsection \<open>The invariant holds in every state of the program\<close>

lemma wellformed_init: "wellformed init"
  by (simp add: wellformed_def init_def)

lemma subs_Subscribe:
  "subs (snd (Subscribe st now)) = subs st @ [fst (Subscribe st now)]"
  by (simp add: Subscribe_def make_chan_def Let_def)

lemma fst_Subscribe:
  "fst (Subscribe st now) = \<lparr>ID = Sprintf_d now, Closed = False, Channel = length (chans st)\<rparr>"
  by (simp add: Subscribe_def make_chan_def Let_def)

lemma chans_Subscribe:
  "chans (snd (Subscribe st now)) = chans st @ [\<lparr>closed = False, sent = [], abandoned = False\<rparr>]"
  by (simp add: Subscribe_def make_chan_def Let_def)

lemma wellformed_Subscribe: "wellformed st \<Longrightarrow> wellformed (snd (Subscribe st now))"
  unfolding wellformed_def subs_Subscribe chans_Subscribe fst_Subscribe
  by (auto simp: nth_append)

lemma in_remove1D: "y \<in> set (remove1 x xs) \<Longrightarrow> y \<in> set xs"
  using notin_set_remove1 by fastforce

lemma distinct_map_remove1:
  "distinct (map f xs) \<Longrightarrow> distinct (map f (remove1 x xs))"
  by (induction xs) (auto dest: in_remove1D)

lemma distinct_map_remove1_notin:
  "distinct (map f xs) \<Longrightarrow> x \<in> set xs \<Longrightarrow> y \<in> set (remove1 x xs) \<Longrightarrow> f y \<noteq> f x"
  by (induction xs) (auto dest: in_remove1D split: if_splits simp: image_iff)

lemma wellformed_Unsubscribe:
  assumes "wellformed st"
  shows "fst (Unsubscribe st i) = Returned \<and> wellformed (snd (Unsubscribe st i))"
proof (cases "find (\<lambda>s. ID s = i) (subs st)")
  case None
  then show ?thesis using assms by (simp add: Unsubscribe_char)
next
  case (Some x)
  then have x: "x \<in> set (subs st)" using find_Some_holds by fastforce
  then have ok: "Channel x < length (chans st)" "\<not> closed (chans st ! Channel x)"
    using assms by (auto simp: wellformed_def)
  have d: "distinct (map Channel (subs st))" using assms by (simp add: wellformed_def)
  have notin: "\<forall>y\<in>set (remove1 x (subs st)). Channel y \<noteq> Channel x"
    using d x distinct_map_remove1_notin[of Channel "subs st" x] by blast
  have d': "distinct (map Channel (remove1 x (subs st)))"
    using d by (rule distinct_map_remove1)
  show ?thesis
    using Some ok assms notin d'
    by (auto simp: Unsubscribe_char chan_close_def wellformed_def nth_list_update dest: in_remove1D)
qed

lemma subs_leave_loop: "subs (leave_loop st c) = subs st"
  by (simp add: leave_loop_def)

lemma length_chans_leave_loop: "length (chans (leave_loop st c)) = length (chans st)"
  by (simp add: leave_loop_def)

lemma closed_leave_loop:
  "d < length (chans st) \<Longrightarrow> closed (chans (leave_loop st c) ! d) = closed (chans st ! d)"
  by (simp add: leave_loop_def nth_list_update)


lemma wellformed_leave_loop: "wellformed st \<Longrightarrow> wellformed (leave_loop st c)"
  by (simp add: wellformed_def subs_leave_loop length_chans_leave_loop closed_leave_loop)

lemma subs_Publish: "subs (snd (Publish st m)) = subs st"
  by (simp add: Publish_def split_beta)

lemma chans_Publish: "chans (snd (Publish st m)) = snd (Publish_range (subs st) m (chans st))"
  by (simp add: Publish_def split_beta)

lemma fst_Publish: "fst (Publish st m) = fst (Publish_range (subs st) m (chans st))"
  by (simp add: Publish_def split_beta)

lemma wellformed_Publish: "wellformed st \<Longrightarrow> wellformed (snd (Publish st m))"
  by (simp add: wellformed_def subs_Publish chans_Publish Publish_range_length Publish_range_closed)

lemma wellformed_apply_op: "wellformed st \<Longrightarrow> wellformed (snd (apply_op st x))"
  by (cases x) (simp_all add: wellformed_Subscribe wellformed_Unsubscribe wellformed_leave_loop wellformed_Publish)

lemma reachable_wf: "reachable st \<Longrightarrow> wellformed st"
  by (induction rule: reachable.induct) (simp_all add: wellformed_init wellformed_apply_op)

lemma reachable_run: "reachable st \<Longrightarrow> reachable (run st xs)"
  by (induction xs arbitrary: st) (simp_all add: reachable_step)

lemma wellformed_run: "wellformed st \<Longrightarrow> wellformed (run st xs)"
  by (induction xs arbitrary: st) (simp_all add: wellformed_apply_op)

subsection \<open>What the operations do to the outboxes\<close>




lemma outbox_Publish:
  assumes "fst (Publish st m) = Returned"
  shows "outbox (snd (Publish st m)) c = outbox st c @ replicate (count_list (map Channel (subs st)) c) m"
proof -
  have r: "fst (Publish_range (subs st) m (chans st)) = Returned" using assms by (simp add: fst_Publish)
  show ?thesis
  proof (cases "c < length (chans st)")
    case True
    then show ?thesis
      using Publish_range_sent[OF r True]
      by (simp add: outbox_def chans_Publish Publish_range_length)
  next
    case False
    then have "c \<notin> set (map Channel (subs st))" using Publish_range_Returned_live[OF r] by auto
    then have "count_list (map Channel (subs st)) c = 0" by (simp add: count_list_0_iff)
    then show ?thesis using False
      by (simp add: outbox_def chans_Publish Publish_range_length)
  qed
qed

lemma count_list_distinct: "distinct xs \<Longrightarrow> count_list xs c = (if c \<in> set xs then 1 else 0)"
  by (induction xs) auto

lemma outbox_Publish_live:
  "wellformed st \<Longrightarrow> fst (Publish st m) = Returned \<Longrightarrow> x \<in> set (subs st) \<Longrightarrow>
   outbox (snd (Publish st m)) (Channel x) = outbox st (Channel x) @ [m]"
  by (simp add: outbox_Publish wellformed_def count_list_distinct)

lemma outbox_Publish_other:
  "c \<notin> Channel ` set (subs st) \<Longrightarrow> outbox (snd (Publish st m)) c = outbox st c"
  by (simp add: outbox_def chans_Publish Publish_range_length Publish_range_other)




lemma is_closed_leave_loop: "is_closed st c \<Longrightarrow> is_closed (leave_loop st d) c"
  by (simp add: is_closed_def length_chans_leave_loop closed_leave_loop)

lemma is_closed_Unsubscribe: "is_closed st c \<Longrightarrow> is_closed (snd (Unsubscribe st i)) c"
  by (auto simp: is_closed_def Unsubscribe_char chan_close_def nth_list_update split: option.splits)

lemma is_closed_apply_op: "is_closed st c \<Longrightarrow> is_closed (snd (apply_op st x)) c"
proof (cases x)
  case (OpSubscribe now)
  assume "is_closed st c"
  then show ?thesis using OpSubscribe by (simp add: is_closed_def chans_Subscribe nth_append)
next
  case (OpDisconnect s)
  assume "is_closed st c"
  then show ?thesis using OpDisconnect by (simp add: is_closed_leave_loop is_closed_Unsubscribe)
next
  case (OpPublish m)
  assume "is_closed st c"
  then show ?thesis using OpPublish
    by (simp add: is_closed_def chans_Publish Publish_range_length Publish_range_closed)
qed

lemma is_closed_run: "is_closed st c \<Longrightarrow> is_closed (run st xs) c"
  by (induction xs arbitrary: st) (simp_all add: is_closed_apply_op)

lemma wellformed_closed_not_live: "wellformed st \<Longrightarrow> is_closed st c \<Longrightarrow> c \<notin> Channel ` set (subs st)"
  by (auto simp: wellformed_def is_closed_def)

lemma Unsubscribe_closes:
  "wellformed st \<Longrightarrow> find (\<lambda>s. ID s = i) (subs st) = Some x \<Longrightarrow> is_closed (snd (Unsubscribe st i)) (Channel x)"
  using find_Some_holds[of "\<lambda>s. ID s = i" "subs st" x]
  by (auto simp: wellformed_def is_closed_def Unsubscribe_char chan_close_def)

text \<open>
  In a state of the program \<^verbatim>\<open>Publish\<close> returns exactly when the session of every live
  subscriber is still in its loop, and then every live subscriber gets one copy.
\<close>

lemma Publish_returns_iff:
  assumes "wellformed st"
  shows "(fst (Publish st m) = Returned) = (\<forall>x\<in>set (subs st). \<not> is_abandoned st (Channel x))"
proof
  assume "fst (Publish st m) = Returned"
  then have "fst (Publish_range (subs st) m (chans st)) = Returned" by (simp add: fst_Publish)
  from Publish_range_Returned_live[OF this]
  show "\<forall>x\<in>set (subs st). \<not> is_abandoned st (Channel x)" by (simp add: is_abandoned_def)
next
  assume "\<forall>x\<in>set (subs st). \<not> is_abandoned st (Channel x)"
  then have "\<forall>x\<in>set (subs st). Channel x < length (chans st) \<and> \<not> closed (chans st ! Channel x)
               \<and> \<not> abandoned (chans st ! Channel x)"
    using assms by (simp add: wellformed_def is_abandoned_def)
  from Publish_range_ok[OF this] show "fst (Publish st m) = Returned" by (simp add: fst_Publish)
qed

lemma Publish_fan_out_reading:
  assumes "reachable st" and "\<forall>x\<in>set (subs st). \<not> is_abandoned st (Channel x)"
  shows "fst (Publish st m) = Returned \<and>
     (\<forall>x\<in>set (subs st). outbox (snd (Publish st m)) (Channel x) = outbox st (Channel x) @ [m]) \<and>
     (\<forall>c. c \<notin> Channel ` set (subs st) \<longrightarrow> outbox (snd (Publish st m)) c = outbox st c)"
proof -
  have w: "wellformed st" using assms(1) by (rule reachable_wf)
  have r: "fst (Publish st m) = Returned" using assms(2) by (simp add: Publish_returns_iff[OF w])
  show ?thesis using w r by (simp add: outbox_Publish_live outbox_Publish_other)
qed

subsection \<open>Evaluating concrete executions\<close>

lemmas registry_eval =
  init_def Subscribe_def make_chan_def Publish_def chan_send_def Unsubscribe_def chan_close_def
  leave_loop_def outbox_def is_closed_def is_abandoned_def Let_def

lemma Sprintf_d_example: "Sprintf_d 1700000000 = ''1700000000''"
  by (simp add: Sprintf_d_def digits.simps digit_char_def)

subsection \<open>Claims about Publish\<close>

text \<open>
  C2. The claim is that \<^verbatim>\<open>Publish(m)\<close> puts exactly one copy of \<open>m\<close> into the outbox of
  every subscriber of the live set. Two sessions subscribe within the second 1700000000
  and get the same id; the second one disconnects. Its \<^verbatim>\<open>Unsubscribe\<close> removes the first
  session's subscriber, the first with that id, and closes that channel. The live set is
  now the subscriber of the session that has gone: its channel is open and nobody receives
  from it. \<^verbatim>\<open>Publish\<close> blocks on it for ever, and the live subscriber gets no copy.
\<close>

theorem Publish_blocks_after_collision:
  "subs (run init [OpSubscribe 1700000000, OpSubscribe 1700000000,
                   OpDisconnect (fst (Subscribe (snd (Subscribe init 1700000000)) 1700000000))])
     = [fst (Subscribe (snd (Subscribe init 1700000000)) 1700000000)] \<and>
   Channel (fst (Subscribe (snd (Subscribe init 1700000000)) 1700000000)) = 1 \<and>
   \<not> is_closed (run init [OpSubscribe 1700000000, OpSubscribe 1700000000,
                   OpDisconnect (fst (Subscribe (snd (Subscribe init 1700000000)) 1700000000))]) 1 \<and>
   is_abandoned (run init [OpSubscribe 1700000000, OpSubscribe 1700000000,
                   OpDisconnect (fst (Subscribe (snd (Subscribe init 1700000000)) 1700000000))]) 1 \<and>
   fst (Publish (run init [OpSubscribe 1700000000, OpSubscribe 1700000000,
                   OpDisconnect (fst (Subscribe (snd (Subscribe init 1700000000)) 1700000000))]) ''m'')
     = Blocked \<and>
   outbox (snd (Publish (run init [OpSubscribe 1700000000, OpSubscribe 1700000000,
                   OpDisconnect (fst (Subscribe (snd (Subscribe init 1700000000)) 1700000000))]) ''m'')) 1
     = []"
  by (simp add: registry_eval Sprintf_d_example)



text \<open>
  C8. With no subscriber in the live set, \<^verbatim>\<open>Publish\<close> returns and the state of the program,
  registry and channels, is what it was.
\<close>

theorem Publish_no_subscribers: "subs st = [] \<Longrightarrow> Publish st m = (Returned, st)"
  by (simp add: Publish_def)

theorem Publish_no_subscribers_witness:
  "subs init = [] \<and> Publish init ''hi'' = (Returned, init)"
proof -
  have e: "subs init = []" by (simp add: init_def)
  from e Publish_no_subscribers[OF e, of "''hi''"] show ?thesis by (intro conjI)
qed

text \<open>
  C10. \<^verbatim>\<open>Publish\<close> leaves the \<^verbatim>\<open>Event\<close> as it was, for every state and however the call
  ends: the same subscribers with the same ids in the same order. In the channel store no
  channel is made or closed, and a channel that no live subscriber holds is untouched: only
  what has been sent through the live subscribers' channels changes.
\<close>

theorem Publish_frame:
  "event (snd (Publish st m)) = event st \<and>
   map ID (subs (snd (Publish st m))) = map ID (subs st) \<and>
   length (chans (snd (Publish st m))) = length (chans st) \<and>
   (\<forall>c < length (chans st). closed (chans (snd (Publish st m)) ! c) = closed (chans st ! c)) \<and>
   (\<forall>c. c \<notin> Channel ` set (subs st) \<longrightarrow> chans (snd (Publish st m)) ! c = chans st ! c)"
  by (simp add: subs_Publish chans_Publish Publish_range_length Publish_range_closed Publish_range_other
        Publish_def split_beta)

theorem Publish_frame_witness:
  "event (snd (Publish (run init [OpSubscribe 5, OpSubscribe 7, OpDisconnect (fst (Subscribe init 5))]) ''m''))
     = event (run init [OpSubscribe 5, OpSubscribe 7, OpDisconnect (fst (Subscribe init 5))]) \<and>
   (1::nat) < length (chans (run init [OpSubscribe 5, OpSubscribe 7, OpDisconnect (fst (Subscribe init 5))])) \<and>
   closed (chans (snd (Publish (run init [OpSubscribe 5, OpSubscribe 7, OpDisconnect (fst (Subscribe init 5))]) ''m'')) ! 1)
     = closed (chans (run init [OpSubscribe 5, OpSubscribe 7, OpDisconnect (fst (Subscribe init 5))]) ! 1) \<and>
   (0::nat) \<notin> Channel ` set (subs (run init [OpSubscribe 5, OpSubscribe 7, OpDisconnect (fst (Subscribe init 5))])) \<and>
   (0::nat) < length (chans (run init [OpSubscribe 5, OpSubscribe 7, OpDisconnect (fst (Subscribe init 5))])) \<and>
   chans (snd (Publish (run init [OpSubscribe 5, OpSubscribe 7, OpDisconnect (fst (Subscribe init 5))]) ''m'')) ! 0
     = chans (run init [OpSubscribe 5, OpSubscribe 7, OpDisconnect (fst (Subscribe init 5))]) ! 0 \<and>
   sent (chans (snd (Publish (run init [OpSubscribe 5, OpSubscribe 7, OpDisconnect (fst (Subscribe init 5))]) ''m'')) ! 1)
     = [''m'']"
proof -
  let ?S = "run init [OpSubscribe 5, OpSubscribe 7, OpDisconnect (fst (Subscribe init 5))]"
  have s5: "Sprintf_d 5 = ''5''" and s7: "Sprintf_d 7 = ''7''"
    by (simp_all add: Sprintf_d_def digits.simps digit_char_def)
  note T = Publish_frame[of ?S "''m''"]
  have l: "(1::nat) < length (chans ?S)" by (simp add: registry_eval s5 s7)
  have l0: "(0::nat) < length (chans ?S)" by (simp add: registry_eval s5 s7)
  have n: "(0::nat) \<notin> Channel ` set (subs ?S)" by (simp add: registry_eval s5 s7)
  have s: "sent (chans (snd (Publish ?S ''m'')) ! 1) = [''m'']" by (simp add: registry_eval s5 s7)
  note T1 = T[THEN conjunct1]
  note T4 = T[THEN conjunct2, THEN conjunct2, THEN conjunct2, THEN conjunct1, rule_format, OF l]
  note T5 = T[THEN conjunct2, THEN conjunct2, THEN conjunct2, THEN conjunct2, rule_format, OF n]
  from T1 l T4 n l0 T5 s show ?thesis by (intro conjI)
qed

subsection \<open>The Closed field\<close>

text \<open>
  C9. No operation writes the \<^verbatim>\<open>Closed\<close> field. In every state of the program it is false
  for every subscriber of the live set and for the subscriber that \<^verbatim>\<open>Subscribe\<close> returns, and
  it is still false for the subscriber whose channel \<^verbatim>\<open>Unsubscribe\<close> has just closed.
\<close>

theorem Closed_never_set:
  assumes "reachable st"
  shows "(\<forall>x\<in>set (subs st). \<not> Closed x) \<and>
         \<not> Closed (fst (Subscribe st now)) \<and>
         (\<forall>i x. find (\<lambda>s. ID s = i) (subs st) = Some x \<longrightarrow>
            is_closed (snd (Unsubscribe st i)) (Channel x) \<and> \<not> Closed x)"
proof -
  have w: "wellformed st" using assms by (rule reachable_wf)
  have a: "\<forall>x\<in>set (subs st). \<not> Closed x" using w by (simp add: wellformed_def)
  have b: "\<not> Closed (fst (Subscribe st now))" by (simp add: fst_Subscribe)
  have c: "is_closed (snd (Unsubscribe st i)) (Channel x) \<and> \<not> Closed x"
    if f: "find (\<lambda>s. ID s = i) (subs st) = Some x" for i x
  proof
    show "is_closed (snd (Unsubscribe st i)) (Channel x)" using w f by (rule Unsubscribe_closes)
    have "x \<in> set (subs st)" using find_Some_holds[OF f] by simp
    with a show "\<not> Closed x" by blast
  qed
  from a b c show ?thesis by blast
qed

theorem Closed_never_set_witness:
  "reachable (run init [OpSubscribe 5, OpPublish ''m'']) \<and>
   \<lparr>ID = Sprintf_d 5, Closed = False, Channel = 0\<rparr> \<in> set (subs (run init [OpSubscribe 5, OpPublish ''m''])) \<and>
   \<not> Closed \<lparr>ID = Sprintf_d 5, Closed = False, Channel = 0\<rparr> \<and>
   find (\<lambda>s. ID s = Sprintf_d 5) (subs (run init [OpSubscribe 5, OpPublish ''m'']))
      = Some \<lparr>ID = Sprintf_d 5, Closed = False, Channel = 0\<rparr> \<and>
   is_closed (snd (Unsubscribe (run init [OpSubscribe 5, OpPublish ''m'']) (Sprintf_d 5))) 0"
proof -
  let ?S = "run init [OpSubscribe 5, OpPublish ''m'']"
  let ?a = "\<lparr>ID = Sprintf_d 5, Closed = False, Channel = 0\<rparr>"
  have r: "reachable ?S" by (rule reachable_run[OF reachable_init])
  have a: "?a \<in> set (subs ?S)" by (simp add: registry_eval)
  have f: "find (\<lambda>s. ID s = Sprintf_d 5) (subs ?S) = Some ?a" by (simp add: registry_eval)
  note T = Closed_never_set[OF r, of 0]
  note T1 = T[THEN conjunct1, THEN bspec, OF a]
  note T3 = T[THEN conjunct2, THEN conjunct2, rule_format, OF f, THEN conjunct1]
  have c: "Channel ?a = 0" by simp
  from T3 have T3': "is_closed (snd (Unsubscribe ?S (Sprintf_d 5))) 0" by (simp only: c)
  from r a T1 f T3' show ?thesis by (intro conjI)
qed

subsection \<open>Subscriber ids\<close>

text \<open>
  Decimal printing is injective, so two subscribers get the same id exactly when their
  \<^verbatim>\<open>Subscribe\<close> calls read the same second.
\<close>

lemma digit_char_cases:
  "d < 10 \<Longrightarrow> d = 0 \<or> d = 1 \<or> d = 2 \<or> d = 3 \<or> d = 4 \<or> d = 5 \<or> d = 6 \<or> d = 7 \<or> d = 8 \<or> d = (9::nat)"
  by arith

lemma digit_char_inj:
  assumes "a < 10" and "b < 10" and "digit_char a = digit_char b"
  shows "a = b"
proof -
  from digit_char_cases[OF assms(1)] digit_char_cases[OF assms(2)] assms(3)
  show ?thesis by (elim disjE) (simp_all add: digit_char_def)
qed

lemma digit_char_not_minus:
  assumes "d < 10"
  shows "digit_char d \<noteq> CHR ''-''"
proof -
  from digit_char_cases[OF assms]
  show ?thesis by (elim disjE) (simp_all add: digit_char_def)
qed

lemma digits_nonempty: "digits n \<noteq> []"
  by (subst digits.simps) simp

lemma digits_no_minus: "CHR ''-'' \<notin> set (digits n)"
proof (induction n rule: digits.induct)
  case (1 n)
  show ?case
  proof (cases "n < 10")
    case True
    then show ?thesis using digit_char_not_minus[of n] by (subst digits.simps) auto
  next
    case False
    then show ?thesis using 1 digit_char_not_minus[of "n mod 10"]
      by (subst digits.simps) auto
  qed
qed

lemma digits_inj: "digits n = digits m \<Longrightarrow> n = m"
proof (induction n arbitrary: m rule: digits.induct)
  case (1 n)
  show ?case
  proof (cases "n < 10")
    case n: True
    show ?thesis
    proof (cases "m < 10")
      case True
      with n "1.prems" show ?thesis
        using digit_char_inj[of n m] by (simp add: digits.simps[of n] digits.simps[of m])
    next
      case False
      with n "1.prems" digits_nonempty[of "m div 10"] show ?thesis
        by (simp add: digits.simps[of n] digits.simps[of m])
    qed
  next
    case n: False
    show ?thesis
    proof (cases "m < 10")
      case True
      with n "1.prems" digits_nonempty[of "n div 10"] show ?thesis
        by (simp add: digits.simps[of n] digits.simps[of m])
    next
      case False
      with n "1.prems" have e: "digits (n div 10) = digits (m div 10)"
        and d: "digit_char (n mod 10) = digit_char (m mod 10)"
        by (simp_all add: digits.simps[of n] digits.simps[of m])
      from "1.IH"[OF n e] have "n div 10 = m div 10" .
      moreover from d have "n mod 10 = m mod 10" using digit_char_inj[of "n mod 10" "m mod 10"] by simp
      ultimately show ?thesis by (metis div_mult_mod_eq)
    qed
  qed
qed

lemma Sprintf_d_inj: "Sprintf_d a = Sprintf_d b \<Longrightarrow> a = b"
proof -
  assume e: "Sprintf_d a = Sprintf_d b"
  consider "a < 0" "b < 0" | "a < 0" "\<not> b < 0" | "\<not> a < 0" "b < 0" | "\<not> a < 0" "\<not> b < 0" by blast
  then show ?thesis
  proof cases
    case 1
    with e have "digits (nat (- a)) = digits (nat (- b))" by (simp add: Sprintf_d_def)
    then have "nat (- a) = nat (- b)" by (rule digits_inj)
    with 1 show ?thesis by simp
  next
    case 2
    with e have "CHR ''-'' # digits (nat (- a)) = digits (nat b)" by (simp add: Sprintf_d_def)
    then have "CHR ''-'' \<in> set (digits (nat b))" by (metis list.set_intros(1))
    then show ?thesis using digits_no_minus by blast
  next
    case 3
    with e have "digits (nat a) = CHR ''-'' # digits (nat (- b))" by (simp add: Sprintf_d_def)
    then have "CHR ''-'' \<in> set (digits (nat a))" by (metis list.set_intros(1))
    then show ?thesis using digits_no_minus by blast
  next
    case 4
    with e have "digits (nat a) = digits (nat b)" by (simp add: Sprintf_d_def)
    then have "nat a = nat b" by (rule digits_inj)
    with 4 show ?thesis by simp
  qed
qed

lemma Subscribe_ids_equal_iff:
  "(ID (fst (Subscribe st a)) = ID (fst (Subscribe st' b))) = (a = b)"
  using Sprintf_d_inj by (auto simp: fst_Subscribe)

text \<open>
  C1. The claim is that the ids returned by any sequence of \<^verbatim>\<open>Subscribe\<close> calls are pairwise
  different, so that the live set has at most one subscriber per id. The id is the clock
  reading in whole seconds: two calls within the second 1700000000 return the same id, and
  the live set then holds two subscribers with that id.
\<close>

theorem Subscribe_same_second_same_id:
  "ID (fst (Subscribe init 1700000000)) = ''1700000000'' \<and>
   ID (fst (Subscribe (snd (Subscribe init 1700000000)) 1700000000)) = ''1700000000'' \<and>
   subs (snd (Subscribe (snd (Subscribe init 1700000000)) 1700000000)) =
     [\<lparr>ID = ''1700000000'', Closed = False, Channel = 0\<rparr>,
      \<lparr>ID = ''1700000000'', Closed = False, Channel = 1\<rparr>] \<and>
   \<not> distinct (map ID (subs (snd (Subscribe (snd (Subscribe init 1700000000)) 1700000000))))"
  by (simp add: registry_eval Sprintf_d_example)

subsection \<open>Unsubscribe\<close>

lemma find_None_no_match: "(find P xs = None) = (\<forall>x\<in>set xs. \<not> P x)"
  by (induction xs) auto

lemma filter_empty_no_match: "length (filter P xs) = 0 \<Longrightarrow> y \<in> set xs \<Longrightarrow> \<not> P y"
  by (induction xs) (auto split: if_splits)

lemma unique_match_removed:
  "length (filter P xs) \<le> 1 \<Longrightarrow> find P xs = Some x \<Longrightarrow> y \<in> set (remove1 x xs) \<Longrightarrow> \<not> P y"
proof (induction xs)
  case Nil
  then show ?case by simp
next
  case (Cons a xs)
  show ?case
  proof (cases "P a")
    case True
    with Cons.prems have "x = a" "length (filter P xs) = 0" "y \<in> set xs" by simp_all
    then show ?thesis using filter_empty_no_match by fastforce
  next
    case False
    with Cons.prems have f: "find P xs = Some x" and l: "length (filter P xs) \<le> 1" by simp_all
    then have "P x" using find_Some_holds by fastforce
    with False have "x \<noteq> a" by blast
    with Cons.prems have "y = a \<or> y \<in> set (remove1 x xs)" by auto
    then show ?thesis using False Cons.IH[OF l f] by blast
  qed
qed

lemma Unsubscribe_absent:
  "\<forall>x\<in>set (subs st). ID x \<noteq> i \<Longrightarrow> Unsubscribe st i = (Returned, st)"
proof -
  assume "\<forall>x\<in>set (subs st). ID x \<noteq> i"
  then have "find (\<lambda>s. ID s = i) (subs st) = None" by (simp add: find_None_no_match)
  then show ?thesis by (simp add: Unsubscribe_char)
qed

lemma Unsubscribe_unique_gone:
  assumes "length (filter (\<lambda>s. ID s = i) (subs st)) \<le> 1"
  shows "\<forall>y\<in>set (subs (snd (Unsubscribe st i))). ID y \<noteq> i"
proof (cases "find (\<lambda>s. ID s = i) (subs st)")
  case None
  then have "Unsubscribe st i = (Returned, st)" by (simp add: Unsubscribe_char)
  moreover from None have "\<forall>x\<in>set (subs st). ID x \<noteq> i" by (simp add: find_None_no_match)
  ultimately show ?thesis by simp
next
  case (Some x)
  then have "subs (snd (Unsubscribe st i)) = remove1 x (subs st)" by (simp add: Unsubscribe_char)
  then show ?thesis using unique_match_removed[OF assms Some] by auto
qed

text \<open>
  With ids that are unique in the live set \<^verbatim>\<open>Unsubscribe\<close> does what is asked of it. In
  every state of the program it returns; the first live subscriber with the id is removed,
  its channel is closed, and after any further steps it is not in the live set and a
  \<^verbatim>\<open>Publish\<close> hands nothing to its channel; when at most one live subscriber carried the id,
  none with that id is left, and a second \<^verbatim>\<open>Unsubscribe\<close> of the id changes nothing.
\<close>

lemma Unsubscribe_unique_removes:
  assumes "reachable st"
  shows "fst (Unsubscribe st i) = Returned \<and>
         (length (filter (\<lambda>s. ID s = i) (subs st)) \<le> 1 \<longrightarrow>
            (\<forall>y\<in>set (subs (snd (Unsubscribe st i))). ID y \<noteq> i)) \<and>
         (\<forall>x. find (\<lambda>s. ID s = i) (subs st) = Some x \<longrightarrow>
            is_closed (snd (Unsubscribe st i)) (Channel x) \<and>
            (\<forall>ops m. x \<notin> set (subs (run (snd (Unsubscribe st i)) ops)) \<and>
               outbox (snd (Publish (run (snd (Unsubscribe st i)) ops) m)) (Channel x)
                 = outbox (run (snd (Unsubscribe st i)) ops) (Channel x)))"
proof -
  have w: "wellformed st" using assms by (rule reachable_wf)
  have a: "fst (Unsubscribe st i) = Returned" using w by (simp add: wellformed_Unsubscribe)
  have b: "length (filter (\<lambda>s. ID s = i) (subs st)) \<le> 1 \<longrightarrow>
            (\<forall>y\<in>set (subs (snd (Unsubscribe st i))). ID y \<noteq> i)"
    using Unsubscribe_unique_gone by blast
  have c: "is_closed (snd (Unsubscribe st i)) (Channel x) \<and>
            (\<forall>ops m. x \<notin> set (subs (run (snd (Unsubscribe st i)) ops)) \<and>
               outbox (snd (Publish (run (snd (Unsubscribe st i)) ops) m)) (Channel x)
                 = outbox (run (snd (Unsubscribe st i)) ops) (Channel x))"
    if f: "find (\<lambda>s. ID s = i) (subs st) = Some x" for x
  proof (intro conjI allI)
    show cl: "is_closed (snd (Unsubscribe st i)) (Channel x)" using w f by (rule Unsubscribe_closes)
    fix ops m
    let ?st' = "run (snd (Unsubscribe st i)) ops"
    have w': "wellformed ?st'" using w by (simp add: wellformed_Unsubscribe wellformed_run)
    have "is_closed ?st' (Channel x)" using cl by (rule is_closed_run)
    with w' have n: "Channel x \<notin> Channel ` set (subs ?st')" by (rule wellformed_closed_not_live)
    then show "x \<notin> set (subs ?st')" by blast
    from n show "outbox (snd (Publish ?st' m)) (Channel x) = outbox ?st' (Channel x)"
      by (rule outbox_Publish_other)
  qed
  from a b c show ?thesis by blast
qed

lemma Unsubscribe_idempotent_unique:
  "((\<forall>x\<in>set (subs st). ID x \<noteq> i) \<longrightarrow> Unsubscribe st i = (Returned, st)) \<and>
   (length (filter (\<lambda>s. ID s = i) (subs st)) \<le> 1 \<longrightarrow>
      Unsubscribe (snd (Unsubscribe st i)) i = (Returned, snd (Unsubscribe st i))) \<and>
   (reachable st \<longrightarrow> fst (Unsubscribe st i) = Returned)"
proof (intro conjI impI)
  assume "\<forall>x\<in>set (subs st). ID x \<noteq> i"
  then show "Unsubscribe st i = (Returned, st)" by (rule Unsubscribe_absent)
next
  assume "length (filter (\<lambda>s. ID s = i) (subs st)) \<le> 1"
  then have "\<forall>y\<in>set (subs (snd (Unsubscribe st i))). ID y \<noteq> i" by (rule Unsubscribe_unique_gone)
  then show "Unsubscribe (snd (Unsubscribe st i)) i = (Returned, snd (Unsubscribe st i))"
    by (rule Unsubscribe_absent)
next
  assume "reachable st"
  then have "wellformed st" by (rule reachable_wf)
  then show "fst (Unsubscribe st i) = Returned" by (simp add: wellformed_Unsubscribe)
qed

text \<open>
  C4. The claim is that after \<^verbatim>\<open>Unsubscribe(id)\<close> returns the subscriber with that id is out
  of the live set, its outbox is closed, and no later \<^verbatim>\<open>Publish\<close> tries to deliver to it.
  Two sessions subscribe within the second 1700000000 and get the same id; the second one
  leaves its loop and its \<^verbatim>\<open>Unsubscribe\<close> of that id returns. The subscriber of that session
  is still in the live set and its channel is open: the call removed the other session's
  subscriber and closed the other channel. The next \<^verbatim>\<open>Publish\<close> tries to deliver to the
  session that unsubscribed, and blocks there.
\<close>

theorem Unsubscribe_leaves_same_id:
  "ID (fst (Subscribe (snd (Subscribe init 1700000000)) 1700000000)) = ''1700000000'' \<and>
   Channel (fst (Subscribe (snd (Subscribe init 1700000000)) 1700000000)) = 1 \<and>
   fst (Unsubscribe (leave_loop (run init [OpSubscribe 1700000000, OpSubscribe 1700000000]) 1)
          ''1700000000'') = Returned \<and>
   subs (snd (Unsubscribe (leave_loop (run init [OpSubscribe 1700000000, OpSubscribe 1700000000]) 1)
          ''1700000000''))
     = [fst (Subscribe (snd (Subscribe init 1700000000)) 1700000000)] \<and>
   \<not> is_closed (snd (Unsubscribe (leave_loop (run init [OpSubscribe 1700000000, OpSubscribe 1700000000]) 1)
          ''1700000000'')) 1 \<and>
   is_closed (snd (Unsubscribe (leave_loop (run init [OpSubscribe 1700000000, OpSubscribe 1700000000]) 1)
          ''1700000000'')) 0 \<and>
   fst (Publish (snd (Unsubscribe (leave_loop (run init [OpSubscribe 1700000000, OpSubscribe 1700000000]) 1)
          ''1700000000'')) ''m'') = Blocked"
  by (simp add: registry_eval Sprintf_d_example)

text \<open>
  C6. The claim is that \<^verbatim>\<open>Unsubscribe(id)\<close> twice leaves the state that one call leaves.
  After two subscriptions within the second 1700000000 the live set holds two subscribers
  with one id: the first call removes the first of them, and the second call is not a
  no-op, it removes the second one and closes its channel.
\<close>

theorem Unsubscribe_twice_differs:
  "subs (snd (Unsubscribe (run init [OpSubscribe 1700000000, OpSubscribe 1700000000]) ''1700000000''))
     = [\<lparr>ID = ''1700000000'', Closed = False, Channel = 1\<rparr>] \<and>
   subs (snd (Unsubscribe (snd (Unsubscribe (run init [OpSubscribe 1700000000, OpSubscribe 1700000000])
                                  ''1700000000'')) ''1700000000'')) = [] \<and>
   is_closed (snd (Unsubscribe (snd (Unsubscribe (run init [OpSubscribe 1700000000, OpSubscribe 1700000000])
                                  ''1700000000'')) ''1700000000'')) 1 \<and>
   snd (Unsubscribe (snd (Unsubscribe (run init [OpSubscribe 1700000000, OpSubscribe 1700000000])
                                  ''1700000000'')) ''1700000000'')
     \<noteq> snd (Unsubscribe (run init [OpSubscribe 1700000000, OpSubscribe 1700000000]) ''1700000000'')"
  by (simp add: registry_eval Sprintf_d_example)

subsection \<open>The stream session\<close>

lemma stream_loop_left: "fst (stream_loop ticks st w) = (Own CtxDone \<in> set ticks)"
  by (induction ticks st w rule: stream_loop.induct) simp_all

lemma stream_loop_state:
  "fst (snd (stream_loop ticks st w)) = run st (others_before_done ticks)"
  by (induction ticks st w rule: stream_loop.induct) simp_all

lemma handler_without_flusher:
  "receiveChatHandler st False now ticks =
     \<lparr>ending = Some Returned, final = st,
      resp = http_Error (Header_Set (Header_Set (Header_Set new_writer
                ''Content-Type'' ''text/event-stream'')
                ''Cache-Control'' ''no-cache'')
                ''Connection'' ''keep-alive'') ''Streaming unsupported'' 500,
      calls = []\<rparr>"
  by (simp add: receiveChatHandler_def)

text \<open>
  C7. A session that has subscribed leaves its loop only by the \<^verbatim>\<open>Done\<close> case; a failed
  write does not end it. Started in a state of the program, with any steps of the other
  goroutines in between: when the loop is left the handler returns, and its calls into the
  registry are one \<^verbatim>\<open>Subscribe\<close> followed by exactly one \<^verbatim>\<open>Unsubscribe\<close>, of the id that
  \<^verbatim>\<open>Subscribe\<close> returned; while the loop runs, \<^verbatim>\<open>Unsubscribe\<close> has not been called.
\<close>

theorem handler_unsubscribes_once:
  assumes "reachable st"
  shows "(Own CtxDone \<in> set ticks \<longrightarrow>
            ending (receiveChatHandler st True now ticks) = Some Returned \<and>
            calls (receiveChatHandler st True now ticks)
              = [CallSubscribe, CallUnsubscribe (ID (fst (Subscribe st now)))] \<and>
            final (receiveChatHandler st True now ticks)
              = snd (Unsubscribe
                       (leave_loop (run (snd (Subscribe st now)) (others_before_done ticks))
                          (Channel (fst (Subscribe st now))))
                       (ID (fst (Subscribe st now))))) \<and>
         (Own CtxDone \<notin> set ticks \<longrightarrow>
            ending (receiveChatHandler st True now ticks) = None \<and>
            calls (receiveChatHandler st True now ticks) = [CallSubscribe] \<and>
            final (receiveChatHandler st True now ticks)
              = run (snd (Subscribe st now)) (others_before_done ticks))"
proof -
  let ?st1 = "snd (Subscribe st now)"
  let ?w = "Header_Set (Header_Set (Header_Set new_writer
                ''Content-Type'' ''text/event-stream'')
                ''Cache-Control'' ''no-cache'')
                ''Connection'' ''keep-alive''"
  let ?st2 = "run ?st1 (others_before_done ticks)"
  let ?st3 = "leave_loop ?st2 (Channel (fst (Subscribe st now)))"
  have "wellformed st" using assms by (rule reachable_wf)
  then have "wellformed ?st1" by (rule wellformed_Subscribe)
  then have "wellformed ?st2" by (rule wellformed_run)
  then have "wellformed ?st3" by (rule wellformed_leave_loop)
  then have ok: "fst (Unsubscribe ?st3 (ID (fst (Subscribe st now)))) = Returned"
    by (simp add: wellformed_Unsubscribe)
  have l: "fst (stream_loop ticks ?st1 ?w) = (Own CtxDone \<in> set ticks)" by (rule stream_loop_left)
  have s: "fst (snd (stream_loop ticks ?st1 ?w)) = ?st2" by (rule stream_loop_state)
  show ?thesis
    using ok l s by (simp add: receiveChatHandler_def split_beta Let_def)
qed

theorem handler_unsubscribes_once_witness:
  "reachable init \<and>
   Own CtxDone \<in> set [Other (OpPublish ''m''), Own (RecvData ''m'' True), Own (RecvData ''x'' False), Own CtxDone] \<and>
   ending (receiveChatHandler init True 5
             [Other (OpPublish ''m''), Own (RecvData ''m'' True), Own (RecvData ''x'' False), Own CtxDone])
     = Some Returned \<and>
   calls (receiveChatHandler init True 5
             [Other (OpPublish ''m''), Own (RecvData ''m'' True), Own (RecvData ''x'' False), Own CtxDone])
     = [CallSubscribe, CallUnsubscribe ''5''] \<and>
   subs (final (receiveChatHandler init True 5
             [Other (OpPublish ''m''), Own (RecvData ''m'' True), Own (RecvData ''x'' False), Own CtxDone])) = [] \<and>
   Own CtxDone \<notin> set [Own (RecvData ''x'' False)] \<and>
   ending (receiveChatHandler init True 5 [Own (RecvData ''x'' False)]) = None \<and>
   calls (receiveChatHandler init True 5 [Own (RecvData ''x'' False)]) = [CallSubscribe]"
proof -
  let ?t1 = "[Other (OpPublish ''m''), Own (RecvData ''m'' True), Own (RecvData ''x'' False), Own CtxDone]"
  let ?t2 = "[Own (RecvData ''x'' False)]"
  have s5: "Sprintf_d 5 = ''5''" by (simp add: Sprintf_d_def digits.simps digit_char_def)
  have i: "ID (fst (Subscribe init 5)) = ''5''" by (simp add: fst_Subscribe s5)
  have d1: "Own CtxDone \<in> set ?t1" by simp
  have d2: "Own CtxDone \<notin> set ?t2" by simp
  note A = handler_unsubscribes_once[OF reachable_init, of ?t1 5, THEN conjunct1, THEN mp, OF d1]
  note B = handler_unsubscribes_once[OF reachable_init, of ?t2 5, THEN conjunct2, THEN mp, OF d2]
  from A have A1: "ending (receiveChatHandler init True 5 ?t1) = Some Returned" by (rule conjunct1)
  from A have A2: "calls (receiveChatHandler init True 5 ?t1) = [CallSubscribe, CallUnsubscribe ''5'']"
    by (simp only: i)
  from A have "final (receiveChatHandler init True 5 ?t1)
      = snd (Unsubscribe (leave_loop (run (snd (Subscribe init 5)) (others_before_done ?t1))
                            (Channel (fst (Subscribe init 5)))) (ID (fst (Subscribe init 5))))"
    by (simp only:)
  then have A3: "subs (final (receiveChatHandler init True 5 ?t1)) = []"
    by (simp add: registry_eval)
  from B have B1: "ending (receiveChatHandler init True 5 ?t2) = None" by (rule conjunct1)
  from B have B2: "calls (receiveChatHandler init True 5 ?t2) = [CallSubscribe]" by (simp only:)
  from reachable_init d1 A1 A2 A3 d2 B1 B2 show ?thesis by (intro conjI)
qed

end
